theory Spec2Isabelle
  imports Main "HOL-Library.AList"
begin

section \<open>The User-ID batching engine of gopanosapi\<close>

text \<open>
  The second source file of the package (type \<open>UID\<close>) keeps a ledger of pending
  login/logout events per IP address and of group memberships, counts the changes, and
  has a background task send them to the device in batches. This theory embeds the
  ledger, its four mutation operations, the counter and its trigger, the drain of
  \<open>flushData\<close>, and the control flow of the two background tasks and of \<open>Close\<close>.

  Modelling decisions.
  \<^item> A Go map is an association list with the operations of \<open>AList\<close>: \<open>map_of\<close> reads a
    key, \<open>AList.update\<close> is \<open>m[k] = v\<close>, \<open>AList.delete\<close> is \<open>delete(m, k)\<close>. Go visits the
    keys of a map in an unspecified order; the list order stands for the order of one
    run, and the statements about envelopes hold whatever order the lists have. A set \<open>map[string]struct{}\<close> is an
    association list with values of type \<open>unit\<close>.
  \<^item> Go's \<open>int\<close> is modelled as \<open>int\<close>. The counter moves by at most one per call, so
    it stays within the number of calls made since the first \<open>Init\<close> (lemmas
    \<open>cumChanges_le_length\<close>, \<open>cumChanges_life_le\<close>).
  \<^item> The operations are modelled for a \<open>UID\<close> whose \<open>Init\<close> has succeeded, where both
    maps and the condition variable are allocated. Calls made before that are not
    covered: there the source panics at the first write to a nil map, or at the
    hundredth change when \<open>Init\<close> has failed and \<open>flusher\<close> is nil.
  \<^item> \<open>dataLock\<close> makes each mutation operation, the drain of \<open>flushData\<close> and the
    check of \<open>tickRcvr\<close> atomic with respect to each other; each is one function here.
    \<open>flusher.L\<close> does the same for \<open>Signal\<close> and for the entry into \<open>Wait\<close>.
  \<^item> The field \<open>XMLName\<close> of the envelope structs is never assigned; it only names the
    XML element, and is left out. The fields \<open>device\<close>, \<open>ticking\<close> and \<open>dataLock\<close> of
    \<open>UID\<close> are represented by the transport log, the tick action and atomicity.
\<close>

subsection \<open>Constants\<close>

definition UIDVERSION :: string where
  "UIDVERSION = ''2.0''"

definition UIDTYPE :: string where
  "UIDTYPE = ''update''"

definition MAXCHANGES :: int where
  "MAXCHANGES = 100"

subsection \<open>The envelope\<close>

record groupMemberEntry =
  member_Name :: string

record groupEntry =
  group_Name :: string
  Members :: "groupMemberEntry list"

record loginEntry =
  login_Name :: string
  login_Ip :: string
  login_Timeout :: string

record logoutEntry =
  logout_Name :: string
  logout_Ip :: string

record payloadElement =
  Version :: string
  Type :: string
  LoginEntries :: "loginEntry list"
  LogoutEntries :: "logoutEntry list"
  GroupEntries :: "groupEntry list"

subsection \<open>The ledger\<close>

record userPendingEntries =
  isLogin :: bool
  username :: string
  timeout :: string

text \<open>
  \<open>sync.Cond\<close>, as far as this program uses it. Only the flush task ever waits, so the
  wait list is one flag: \<open>parked\<close> holds while the flush task is inside \<open>Wait\<close> and has
  not been woken. \<open>nsignal\<close> counts the calls of \<open>Signal\<close>; nothing in the program reads
  it, it is there so that "the wake signal is raised" can be observed.
\<close>

record Cond =
  parked :: bool
  nsignal :: nat

record UID =
  payloadE :: payloadElement
  ip2uTransactions :: "(string \<times> userPendingEntries) list"
  groups :: "(string \<times> (string \<times> unit) list) list"
  flusher :: Cond
  wg :: nat
  flusherQuit :: bool
  tickerQuit :: bool
  cumChanges :: int
  isRunning :: bool

text \<open>\<open>Signal\<close> wakes one waiting goroutine if there is one, and does nothing otherwise.\<close>

definition Signal :: "Cond \<Rightarrow> Cond" where
  "Signal c =
     (if parked c then c\<lparr>parked := False, nsignal := nsignal c + 1\<rparr>
      else c\<lparr>nsignal := nsignal c + 1\<rparr>)"

text \<open>The entry into \<open>Wait\<close>: the caller joins the wait list and is suspended.\<close>

definition Wait_park :: "Cond \<Rightarrow> Cond" where
  "Wait_park c = c\<lparr>parked := True\<rparr>"

subsection \<open>Counter and trigger\<close>

definition incChange :: "int \<Rightarrow> UID \<Rightarrow> UID" where
  "incChange increment uid =
     (let uid' = uid\<lparr>cumChanges := cumChanges uid + increment\<rparr>
      in if cumChanges uid' = MAXCHANGES
         then uid'\<lparr>flusher := Signal (flusher uid')\<rparr>
         else uid')"

subsection \<open>Mutation operations\<close>

definition AddLogin :: "string \<Rightarrow> string \<Rightarrow> string \<Rightarrow> UID \<Rightarrow> UID" where
  "AddLogin uname ipaddr tmo uid =
     (case map_of (ip2uTransactions uid) ipaddr of
        Some _ \<Rightarrow>
          incChange (- 1)
            (uid\<lparr>ip2uTransactions := AList.delete ipaddr (ip2uTransactions uid)\<rparr>)
      | None \<Rightarrow>
          incChange 1
            (uid\<lparr>ip2uTransactions :=
                   AList.update ipaddr
                     \<lparr>isLogin = True, username = uname, timeout = tmo\<rparr>
                     (ip2uTransactions uid)\<rparr>))"

definition AddLogout :: "string \<Rightarrow> string \<Rightarrow> UID \<Rightarrow> UID" where
  "AddLogout uname ipaddr uid =
     (case map_of (ip2uTransactions uid) ipaddr of
        Some _ \<Rightarrow>
          incChange (- 1)
            (uid\<lparr>ip2uTransactions := AList.delete ipaddr (ip2uTransactions uid)\<rparr>)
      | None \<Rightarrow>
          incChange 1
            (uid\<lparr>ip2uTransactions :=
                   AList.update ipaddr
                     \<lparr>isLogin = False, username = uname, timeout = ''''\<rparr>
                     (ip2uTransactions uid)\<rparr>))"

text \<open>
  In the source \<open>groupId\<close> is a reference to the inner map, so the assignment
  \<open>groupId[member] = struct{}{}\<close> changes the entry of \<open>uid.groups\<close> in place.
\<close>

definition AddGroupMember :: "string \<Rightarrow> string \<Rightarrow> UID \<Rightarrow> UID" where
  "AddGroupMember grp mbr uid =
     (case map_of (groups uid) grp of
        Some groupId \<Rightarrow>
          (case map_of groupId mbr of
             None \<Rightarrow>
               incChange 1
                 (uid\<lparr>groups :=
                        AList.update grp (AList.update mbr () groupId) (groups uid)\<rparr>)
           | Some _ \<Rightarrow> uid)
      | None \<Rightarrow>
          incChange 1
            (uid\<lparr>groups := AList.update grp (AList.update mbr () []) (groups uid)\<rparr>))"

definition RemoveGroupMember :: "string \<Rightarrow> string \<Rightarrow> UID \<Rightarrow> UID" where
  "RemoveGroupMember grp mbr uid =
     (case map_of (groups uid) grp of
        Some groupId \<Rightarrow>
          (case map_of groupId mbr of
             Some _ \<Rightarrow>
               incChange 1
                 (uid\<lparr>groups :=
                        AList.update grp (AList.delete mbr groupId) (groups uid)\<rparr>)
           | None \<Rightarrow> uid)
      | None \<Rightarrow> uid)"

subsection \<open>The drain of \<open>flushData\<close>\<close>

definition gGarbage :: "UID \<Rightarrow> UID" where
  "gGarbage uid =
     uid\<lparr>groups := filter (\<lambda>(gName, gMembers). length gMembers \<noteq> 0) (groups uid)\<rparr>"

text \<open>The body of the loop over \<open>ip2uTransactions\<close>.\<close>

definition addTransaction :: "string \<times> userPendingEntries \<Rightarrow> payloadElement \<Rightarrow> payloadElement" where
  "addTransaction kv p =
     (case kv of (ipaddr, uidMap) \<Rightarrow>
        if isLogin uidMap
        then p\<lparr>LoginEntries := LoginEntries p @
                 [\<lparr>login_Name = username uidMap, login_Ip = ipaddr,
                   login_Timeout = timeout uidMap\<rparr>]\<rparr>
        else p\<lparr>LogoutEntries := LogoutEntries p @
                 [\<lparr>logout_Name = username uidMap, logout_Ip = ipaddr\<rparr>]\<rparr>)"

text \<open>The body of the loop over \<open>groups\<close>, with its inner loop over the members.\<close>

definition addMember :: "string \<times> unit \<Rightarrow> groupEntry \<Rightarrow> groupEntry" where
  "addMember kv newGEntry =
     (case kv of (mName, _) \<Rightarrow>
        newGEntry\<lparr>Members := Members newGEntry @ [\<lparr>member_Name = mName\<rparr>]\<rparr>)"

definition addGroup :: "string \<times> (string \<times> unit) list \<Rightarrow> payloadElement \<Rightarrow> payloadElement" where
  "addGroup kv p =
     (case kv of (gName, gMembers) \<Rightarrow>
        p\<lparr>GroupEntries := GroupEntries p @
             [fold addMember gMembers \<lparr>group_Name = gName, Members = []\<rparr>]\<rparr>)"

text \<open>
  The section of \<open>flushData\<close> that runs with \<open>dataLock\<close> held: it rebuilds the three
  sequences of \<open>payloadE\<close> from the ledger, collects the empty groups, and resets the
  pending map and the counter.
\<close>

definition buildPayload :: "UID \<Rightarrow> payloadElement" where
  "buildPayload uid =
     fold addGroup (groups uid)
       (fold addTransaction (ip2uTransactions uid)
          ((payloadE uid)\<lparr>LoginEntries := [], LogoutEntries := [], GroupEntries := []\<rparr>))"

definition drain :: "UID \<Rightarrow> UID" where
  "drain uid =
     (gGarbage (uid\<lparr>payloadE := buildPayload uid\<rparr>))
       \<lparr>ip2uTransactions := [], cumChanges := 0\<rparr>"

subsection \<open>Diagnostic serialization\<close>

text \<open>
  \<open>Marshall\<close> hands \<open>payloadE\<close> to \<open>xml.Marshal\<close>. The encoder belongs to Go's
  library, not to the repository, and is the parameter \<open>enc\<close>: what is stated about
  \<open>Marshall\<close> holds for every encoder. With the identity for \<open>enc\<close>, \<open>Marshall\<close> gives
  the struct that is serialized.
\<close>

definition Marshall :: "(payloadElement \<Rightarrow> 'r) \<Rightarrow> UID \<Rightarrow> 'r" where
  "Marshall enc uid = enc (payloadE uid)"

subsection \<open>The engine: ledger, background tasks and transport\<close>

text \<open>
  Where each task stands. The flush task (\<open>flushData\<close>): at the \<open>select\<close> at the head
  of its loop (\<open>F_select\<close>); in the \<open>default\<close> branch before it locks \<open>flusher.L\<close> and
  waits (\<open>F_default\<close>); inside \<open>Wait\<close> (\<open>F_wait\<close>); after \<open>Wait\<close>, before it takes
  \<open>dataLock\<close> (\<open>F_woken\<close>); after the drain, before it marshals and submits
  (\<open>F_submit\<close>); returned (\<open>F_done\<close>). The timer task (\<open>tickRcvr\<close>) is at its \<open>select\<close>
  or has returned. \<open>Close\<close> is not being called (\<open>C_idle\<close>), or stands after the
  closing of \<open>flusherQuit\<close>, after its \<open>Signal\<close>, or after the closing of \<open>tickerQuit\<close>,
  where it waits for both tasks. Before \<open>Init\<close> the tasks do not exist (\<open>F_idle\<close>,
  \<open>T_idle\<close>).
\<close>

datatype flush_pc = F_idle | F_select | F_default | F_wait | F_woken | F_submit | F_done

datatype tick_pc = T_idle | T_select | T_done

datatype close_pc = C_idle | C_quitF | C_signalled | C_quitT

text \<open>
  \<open>sent\<close> is the transport: the envelopes that \<open>flushData\<close> has marshalled and handed
  to \<open>device.Uid\<close>, oldest first.
\<close>

record engine =
  uid :: UID
  fpc :: flush_pc
  tpc :: tick_pc
  cpc :: close_pc
  sent :: "payloadElement list"

text \<open>The zero value of \<open>UID\<close>, and an engine on which nothing has been called.\<close>

definition zeroUID :: UID where
  "zeroUID =
     \<lparr>payloadE = \<lparr>Version = [], Type = [], LoginEntries = [], LogoutEntries = [],
                   GroupEntries = []\<rparr>,
      ip2uTransactions = [], groups = [],
      flusher = \<lparr>parked = False, nsignal = 0\<rparr>, wg = 0,
      flusherQuit = False, tickerQuit = False, cumChanges = 0, isRunning = False\<rparr>"

definition engine0 :: engine where
  "engine0 = \<lparr>uid = zeroUID, fpc = F_idle, tpc = T_idle, cpc = C_idle, sent = []\<rparr>"

text \<open>
  \<open>Init\<close>. The result of \<open>device.Keygen\<close> is the parameter \<open>err\<close>. On success the two
  tasks are started, each at the head of its loop.
\<close>

definition Init :: "string option \<Rightarrow> engine \<Rightarrow> string option \<times> engine" where
  "Init err w =
     (let u = (uid w)\<lparr>payloadE := (payloadE (uid w))\<lparr>Version := UIDVERSION, Type := UIDTYPE\<rparr>,
                      ip2uTransactions := [], groups := []\<rparr>
      in case err of
           Some e \<Rightarrow> (Some e, w\<lparr>uid := u\<rparr>)
         | None \<Rightarrow>
             (None,
              w\<lparr>uid := u\<lparr>flusher := \<lparr>parked = False, nsignal = 0\<rparr>, wg := 2,
                        flusherQuit := False, tickerQuit := False, isRunning := True\<rparr>,
                fpc := F_select, tpc := T_select\<rparr>))"

definition started :: engine where
  "started = snd (Init None engine0)"

text \<open>The calls a client can make on the ledger.\<close>

datatype mutation =
    Login string string string
  | Logout string string
  | GroupAdd string string
  | GroupRemove string string

fun mutate :: "mutation \<Rightarrow> UID \<Rightarrow> UID" where
  "mutate (Login uname ipaddr tmo) u = AddLogin uname ipaddr tmo u"
| "mutate (Logout uname ipaddr) u = AddLogout uname ipaddr u"
| "mutate (GroupAdd grp mbr) u = AddGroupMember grp mbr u"
| "mutate (GroupRemove grp mbr) u = RemoveGroupMember grp mbr u"

text \<open>The body of a tick in \<open>tickRcvr\<close>, under \<open>dataLock\<close>.\<close>

definition tick :: "UID \<Rightarrow> UID" where
  "tick u = (if cumChanges u > 0 then u\<lparr>flusher := Signal (flusher u)\<rparr> else u)"

text \<open>
  One step of one task; \<open>None\<close> when the task cannot move (it is blocked or has
  returned). A step runs a task up to the next point where another task can run.
\<close>

definition flushData :: "engine \<Rightarrow> engine option" where
  "flushData w =
     (case fpc w of
        F_select \<Rightarrow>
          if flusherQuit (uid w)
          then Some (w\<lparr>uid := (uid w)\<lparr>wg := wg (uid w) - 1\<rparr>, fpc := F_done\<rparr>)
          else Some (w\<lparr>fpc := F_default\<rparr>)
      | F_default \<Rightarrow>
          Some (w\<lparr>uid := (uid w)\<lparr>flusher := Wait_park (flusher (uid w))\<rparr>, fpc := F_wait\<rparr>)
      | F_wait \<Rightarrow>
          if parked (flusher (uid w)) then None else Some (w\<lparr>fpc := F_woken\<rparr>)
      | F_woken \<Rightarrow> Some (w\<lparr>uid := drain (uid w), fpc := F_submit\<rparr>)
      | F_submit \<Rightarrow> Some (w\<lparr>sent := sent w @ [payloadE (uid w)], fpc := F_select\<rparr>)
      | F_idle \<Rightarrow> None
      | F_done \<Rightarrow> None)"

definition tickRcvr_tick :: "engine \<Rightarrow> engine option" where
  "tickRcvr_tick w =
     (if tpc w = T_select then Some (w\<lparr>uid := tick (uid w)\<rparr>) else None)"

definition tickRcvr_quit :: "engine \<Rightarrow> engine option" where
  "tickRcvr_quit w =
     (if tpc w = T_select \<and> tickerQuit (uid w)
      then Some (w\<lparr>uid := (uid w)\<lparr>wg := wg (uid w) - 1\<rparr>, tpc := T_done\<rparr>)
      else None)"

definition Close :: "engine \<Rightarrow> engine option" where
  "Close w =
     (case cpc w of
        C_idle \<Rightarrow>
          if isRunning (uid w)
          then Some (w\<lparr>uid := (uid w)\<lparr>flusherQuit := True\<rparr>, cpc := C_quitF\<rparr>)
          else Some (w\<lparr>uid := (uid w)\<lparr>isRunning := False\<rparr>\<rparr>)
      | C_quitF \<Rightarrow>
          Some (w\<lparr>uid := (uid w)\<lparr>flusher := Signal (flusher (uid w))\<rparr>, cpc := C_signalled\<rparr>)
      | C_signalled \<Rightarrow>
          Some (w\<lparr>uid := (uid w)\<lparr>tickerQuit := True\<rparr>, cpc := C_quitT\<rparr>)
      | C_quitT \<Rightarrow>
          if wg (uid w) = 0
          then Some (w\<lparr>uid := (uid w)\<lparr>isRunning := False\<rparr>, cpc := C_idle\<rparr>)
          else None)"

datatype action = Call mutation | Flusher | Tick | TickerQuit | Closer

fun step :: "action \<Rightarrow> engine \<Rightarrow> engine option" where
  "step (Call m) w = Some (w\<lparr>uid := mutate m (uid w)\<rparr>)"
| "step Flusher w = flushData w"
| "step Tick w = tickRcvr_tick w"
| "step TickerQuit w = tickRcvr_quit w"
| "step Closer w = Close w"

text \<open>A schedule is the order in which the tasks take their steps.\<close>

fun run :: "action list \<Rightarrow> engine \<Rightarrow> engine option" where
  "run [] w = Some w"
| "run (a # as) w = (case step a w of None \<Rightarrow> None | Some w' \<Rightarrow> run as w')"

text \<open>
  The ledger seen with \<open>dataLock\<close> held: mutation calls and drains follow one another.
\<close>

datatype ledger_op = Mutation mutation | Drain

fun apply_op :: "ledger_op \<Rightarrow> UID \<Rightarrow> UID" where
  "apply_op (Mutation m) u = mutate m u"
| "apply_op Drain u = drain u"

definition run_ops :: "ledger_op list \<Rightarrow> UID \<Rightarrow> UID" where
  "run_ops ops u = fold apply_op ops u"

subsection \<open>Notions used in the statements\<close>

text \<open>An IP address has a pending mutation when it is a key of \<open>ip2uTransactions\<close>.\<close>

definition pending :: "UID \<Rightarrow> string \<Rightarrow> bool" where
  "pending u ipaddr = (map_of (ip2uTransactions u) ipaddr \<noteq> None)"

text \<open>A member belongs to a group when the group exists and has the member as a key.\<close>

definition is_member :: "UID \<Rightarrow> string \<Rightarrow> string \<Rightarrow> bool" where
  "is_member u grp mbr =
     (case map_of (groups u) grp of None \<Rightarrow> False | Some ms \<Rightarrow> map_of ms mbr \<noteq> None)"

text \<open>
  The lists stand for Go maps when no key occurs twice. Every operation keeps this
  (lemmas \<open>wf_ledger_mutate\<close>, \<open>wf_ledger_drain\<close>), and it holds when the engine starts.
\<close>

definition wf_ledger :: "UID \<Rightarrow> bool" where
  "wf_ledger u =
     (distinct (map fst (ip2uTransactions u)) \<and> distinct (map fst (groups u)) \<and>
      list_all (\<lambda>(g, ms). distinct (map fst ms)) (groups u))"

text \<open>The envelope entry that the drain makes of one ledger entry.\<close>

definition loginOf :: "string \<times> userPendingEntries \<Rightarrow> loginEntry" where
  "loginOf kv =
     \<lparr>login_Name = username (snd kv), login_Ip = fst kv, login_Timeout = timeout (snd kv)\<rparr>"

definition logoutOf :: "string \<times> userPendingEntries \<Rightarrow> logoutEntry" where
  "logoutOf kv = \<lparr>logout_Name = username (snd kv), logout_Ip = fst kv\<rparr>"

definition groupOf :: "string \<times> (string \<times> unit) list \<Rightarrow> groupEntry" where
  "groupOf kv =
     \<lparr>group_Name = fst kv, Members = map (\<lambda>m. \<lparr>member_Name = fst m\<rparr>) (snd kv)\<rparr>"





text \<open>
  The life of a ledger: \<open>Init\<close> can be called again on a \<open>UID\<close> that has been used
  (after \<open>Close\<close>, or without it), between mutation calls and drains. \<open>restart err u\<close>
  is the \<open>UID\<close> that \<open>Init\<close> leaves when it is called on \<open>u\<close>.
\<close>

definition restart :: "string option \<Rightarrow> UID \<Rightarrow> UID" where
  "restart err u = uid (snd (Init err (engine0\<lparr>uid := u\<rparr>)))"

datatype life_op = Start "string option" | Ledger ledger_op

fun apply_life :: "life_op \<Rightarrow> UID \<Rightarrow> UID" where
  "apply_life (Start err) u = restart err u"
| "apply_life (Ledger a) u = apply_op a u"

definition run_life :: "life_op list \<Rightarrow> UID \<Rightarrow> UID" where
  "run_life lops u = fold apply_life lops u"

text \<open>
  The values of the counter after each call of a sequence, and how often a sequence of
  counter values arrives at the threshold: the value is \<open>MAXCHANGES\<close> and the value
  before it was not.
\<close>

fun counter_trace :: "mutation list \<Rightarrow> UID \<Rightarrow> int list" where
  "counter_trace [] u = []"
| "counter_trace (m # ms) u = cumChanges (mutate m u) # counter_trace ms (mutate m u)"

fun arrivals :: "int \<Rightarrow> int list \<Rightarrow> nat" where
  "arrivals c [] = 0"
| "arrivals c (c' # cs) = (if c' = MAXCHANGES \<and> c' \<noteq> c then 1 else 0) + arrivals c' cs"

text \<open>
  An envelope names a group when it has an entry for it. An action adds to a group
  when it is a call of \<open>AddGroupMember\<close> for it. \<open>collected g s0 w\<close> holds of an engine
  \<open>w\<close> after the group \<open>g\<close> has been collected, \<open>s0\<close> being what had been sent by then:
  the group map does not have \<open>g\<close>, no envelope sent since names it, and neither does
  \<open>payloadE\<close> once a later drain has rebuilt it.
\<close>

definition names_group :: "payloadElement \<Rightarrow> string \<Rightarrow> bool" where
  "names_group p g = (g \<in> group_Name ` set (GroupEntries p))"

definition adds_to :: "string \<Rightarrow> action \<Rightarrow> bool" where
  "adds_to g a = (case a of Call (GroupAdd grp mbr) \<Rightarrow> grp = g | _ \<Rightarrow> False)"

definition collected :: "string \<Rightarrow> payloadElement list \<Rightarrow> engine \<Rightarrow> bool" where
  "collected g s0 w =
     (g \<notin> fst ` set (groups (uid w))
      \<and> take (length s0) (sent w) = s0
      \<and> list_all (\<lambda>e. \<not> names_group e g) (drop (length s0) (sent w))
      \<and> (fpc w = F_submit \<or> length s0 < length (sent w)
           \<longrightarrow> \<not> names_group (payloadE (uid w)) g))"

subsection \<open>Example runs\<close>

text \<open>The engine after a schedule (the engine itself if the schedule cannot run).\<close>

definition exec :: "action list \<Rightarrow> engine \<Rightarrow> engine" where
  "exec sched w = (case run sched w of Some w' \<Rightarrow> w' | None \<Rightarrow> w)"

text \<open>\<open>2 * n\<close> counted changes: a member is added to a group and removed again.\<close>

definition toggles :: "nat \<Rightarrow> mutation list" where
  "toggles n = concat (replicate n [GroupAdd ''g'' ''m'', GroupRemove ''g'' ''m''])"

text \<open>The flush task has parked; then alice logs in from 10.0.0.1.\<close>

definition alice_waiting :: engine where
  "alice_waiting =
     exec [Flusher, Flusher, Call (Login ''alice'' ''10.0.0.1'' ''60'')] started"

text \<open>
  A tick wakes the flush task, it drains alice's login, and while it submits the
  envelope bob logs in from 10.0.0.2.
\<close>

definition bob_while_busy :: engine where
  "bob_while_busy =
     exec [Tick, Flusher, Flusher, Call (Login ''bob'' ''10.0.0.2'' '''')] alice_waiting"

text \<open>
  \<open>Close\<close> closes the quit channel and signals while the flush task is still
  submitting; the task then comes back to its \<open>select\<close>, and returns.
\<close>

definition closing_at_select :: engine where
  "closing_at_select = exec [Closer, Closer, Flusher] bob_while_busy"

definition flusher_returned :: engine where
  "flusher_returned = exec [Flusher] closing_at_select"

text \<open>
  Alice is added to grp1, a flush sends this, alice is removed again, and a tick
  wakes the flush task: it is about to drain a ledger whose group grp1 is empty.
\<close>

definition grp1_emptied :: engine where
  "grp1_emptied =
     exec [Flusher, Flusher, Call (GroupAdd ''grp1'' ''alice''), Tick, Flusher, Flusher,
           Flusher, Flusher, Flusher, Call (GroupRemove ''grp1'' ''alice''), Tick, Flusher]
       started"

text \<open>The signal of that tick is lost; the flush task has parked again.\<close>

definition parked_again :: engine where
  "parked_again = exec [Tick, Flusher, Flusher, Flusher] bob_while_busy"

text \<open>The same busy engine after 98 more counted changes: the counter is at 99.\<close>

definition busy_at_99 :: engine where
  "busy_at_99 = exec (map Call (toggles 49)) bob_while_busy"

text \<open>Ledgers with the counter at 99 and, past the threshold, at 101.\<close>

definition below_threshold :: UID where
  "below_threshold = fold mutate (toggles 49 @ [GroupAdd ''g'' ''m'']) (uid started)"

definition over_threshold :: UID where
  "over_threshold =
     fold mutate (toggles 50 @ [Login ''alice'' ''10.0.0.1'' ''60'']) (uid started)"

text \<open>A ledger in which alice is a member of grp1.\<close>

definition alice_in_grp1 :: UID where
  "alice_in_grp1 = AddGroupMember ''grp1'' ''alice'' (uid started)"

text \<open>
  With alice's login pending, alice is added to grp1 and a tick wakes the flush task:
  \<open>Wait\<close> has returned and the drain is still to come.
\<close>

definition woken_engine :: engine where
  "woken_engine = exec [Call (GroupAdd ''grp1'' ''alice''), Tick, Flusher] alice_waiting"

text \<open>
  The busy engine, with bob's login pending, a step later (the flush task is back at
  its \<open>select\<close>) and two steps later (it has taken the \<open>default\<close> branch).
\<close>

definition back_at_select :: engine where
  "back_at_select = exec [Flusher] bob_while_busy"



text \<open>
  What follows the flush that collects grp1: bob logs in, the flush task comes round,
  parks, is woken by a tick, and flushes a second time.
\<close>

definition after_collection :: "action list" where
  "after_collection =
     [Call (Login ''bob'' ''10.0.0.2'' ''''), Flusher, Flusher, Tick, Flusher, Flusher, Flusher]"

definition grp1_flushed_twice :: engine where
  "grp1_flushed_twice = exec (Flusher # Flusher # after_collection) grp1_emptied"



section \<open>Properties\<close>

subsection \<open>The example runs\<close>

text \<open>Each example engine is reached by its schedule.\<close>

lemma examples_reached:
  "run [Flusher, Flusher, Call (Login ''alice'' ''10.0.0.1'' ''60'')] started
     = Some alice_waiting
   \<and> run [Tick, Flusher, Flusher, Call (Login ''bob'' ''10.0.0.2'' '''')] alice_waiting
     = Some bob_while_busy
   \<and> run [Closer, Closer, Flusher] bob_while_busy = Some closing_at_select
   \<and> run [Flusher] closing_at_select = Some flusher_returned
   \<and> run [Tick, Flusher, Flusher, Flusher] bob_while_busy = Some parked_again
   \<and> run (map Call (toggles 49)) bob_while_busy = Some busy_at_99
   \<and> run [Flusher, Flusher, Call (GroupAdd ''grp1'' ''alice''), Tick, Flusher, Flusher,
           Flusher, Flusher, Flusher, Call (GroupRemove ''grp1'' ''alice''), Tick, Flusher]
        started
     = Some grp1_emptied"
  by code_simp

subsection \<open>What \<open>incChange\<close> and \<open>Signal\<close> touch\<close>

lemma Signal_nsignal [simp]: "nsignal (Signal c) = nsignal c + 1"
  by (simp add: Signal_def)

lemma Signal_parked [simp]: "parked (Signal c) = False"
  by (simp add: Signal_def)

lemma incChange_cumChanges [simp]: "cumChanges (incChange k u) = cumChanges u + k"
  by (simp add: incChange_def Let_def)

lemma incChange_ip2u [simp]: "ip2uTransactions (incChange k u) = ip2uTransactions u"
  by (simp add: incChange_def Let_def)

lemma incChange_groups [simp]: "groups (incChange k u) = groups u"
  by (simp add: incChange_def Let_def)

lemma incChange_payloadE [simp]: "payloadE (incChange k u) = payloadE u"
  by (simp add: incChange_def Let_def)

lemma incChange_nsignal:
  "nsignal (flusher (incChange k u)) =
     nsignal (flusher u) + (if cumChanges u + k = MAXCHANGES then 1 else 0)"
  by (simp add: incChange_def Let_def)

subsection \<open>Login and logout toggle\<close>

lemma map_of_None_notin: "map_of al k = None \<Longrightarrow> k \<notin> fst ` set al"
  by (simp add: map_of_eq_None_iff)

lemma AddLogin_map:
  "map_of (ip2uTransactions (AddLogin uname ipaddr tmo u)) =
     (if pending u ipaddr then (map_of (ip2uTransactions u))(ipaddr := None)
      else (map_of (ip2uTransactions u))
             (ipaddr \<mapsto> \<lparr>isLogin = True, username = uname, timeout = tmo\<rparr>))"
  by (auto simp: AddLogin_def pending_def AList.update_conv' AList.delete_conv'
      split: option.splits)

lemma AddLogout_map:
  "map_of (ip2uTransactions (AddLogout uname ipaddr u)) =
     (if pending u ipaddr then (map_of (ip2uTransactions u))(ipaddr := None)
      else (map_of (ip2uTransactions u))
             (ipaddr \<mapsto> \<lparr>isLogin = False, username = uname, timeout = ''''\<rparr>))"
  by (auto simp: AddLogout_def pending_def AList.update_conv' AList.delete_conv'
      split: option.splits)

lemma AddLogin_cumChanges:
  "cumChanges (AddLogin uname ipaddr tmo u) =
     (if pending u ipaddr then cumChanges u - 1 else cumChanges u + 1)"
  by (auto simp: AddLogin_def pending_def split: option.splits)

lemma AddLogout_cumChanges:
  "cumChanges (AddLogout uname ipaddr u) =
     (if pending u ipaddr then cumChanges u - 1 else cumChanges u + 1)"
  by (auto simp: AddLogout_def pending_def split: option.splits)

lemma AddLogin_pending:
  "pending (AddLogin uname ipaddr tmo u) ipaddr = (\<not> pending u ipaddr)"
  by (simp add: pending_def AddLogin_map)

lemma AddLogout_pending:
  "pending (AddLogout uname ipaddr u) ipaddr = (\<not> pending u ipaddr)"
  by (simp add: pending_def AddLogout_map)

lemma AddLogin_fresh_ip2u:
  "\<not> pending u ipaddr \<Longrightarrow>
   ip2uTransactions (AddLogin uname ipaddr tmo u) =
     AList.update ipaddr \<lparr>isLogin = True, username = uname, timeout = tmo\<rparr>
       (ip2uTransactions u)"
  by (simp add: AddLogin_def pending_def)

lemma toggle_back:
  "\<not> pending u ipaddr \<Longrightarrow>
   AList.delete ipaddr (AList.update ipaddr v (ip2uTransactions u)) = ip2uTransactions u"
  by (simp add: pending_def AList.delete_update_same map_of_None_notin)

text \<open>
  C1 (toggle-cancel), as the code has it. \<open>AddLogin\<close> and \<open>AddLogout\<close> on an address
  that has a pending mutation of either kind remove that entry and lower the counter by
  one; on an address that has none they insert an entry of the requested kind and raise
  the counter by one. In particular, when the address has no pending mutation before
  the first call, \<open>AddLogin\<close> followed by a second \<open>AddLogin\<close> or \<open>AddLogout\<close> on the
  same address leaves no entry for it, and gives back the pending map and the counter
  of before the first call.
\<close>

theorem toggle_cancel:
  "map_of (ip2uTransactions (AddLogin uname ipaddr tmo u)) =
     (if pending u ipaddr then (map_of (ip2uTransactions u))(ipaddr := None)
      else (map_of (ip2uTransactions u))
             (ipaddr \<mapsto> \<lparr>isLogin = True, username = uname, timeout = tmo\<rparr>))
   \<and> map_of (ip2uTransactions (AddLogout uname ipaddr u)) =
     (if pending u ipaddr then (map_of (ip2uTransactions u))(ipaddr := None)
      else (map_of (ip2uTransactions u))
             (ipaddr \<mapsto> \<lparr>isLogin = False, username = uname, timeout = ''''\<rparr>))
   \<and> cumChanges (AddLogin uname ipaddr tmo u) =
     (if pending u ipaddr then cumChanges u - 1 else cumChanges u + 1)
   \<and> cumChanges (AddLogout uname ipaddr u) =
     (if pending u ipaddr then cumChanges u - 1 else cumChanges u + 1)
   \<and> (\<not> pending u ipaddr \<longrightarrow>
        (let u1 = AddLogin uname ipaddr tmo u;
             u2 = AddLogin uname' ipaddr tmo' u1;
             u3 = AddLogout uname' ipaddr u1
         in \<not> pending u2 ipaddr \<and> \<not> pending u3 ipaddr
            \<and> ip2uTransactions u2 = ip2uTransactions u
            \<and> ip2uTransactions u3 = ip2uTransactions u
            \<and> cumChanges u2 = cumChanges u \<and> cumChanges u3 = cumChanges u))"
proof -
  have "ip2uTransactions (AddLogin uname' ipaddr tmo' (AddLogin uname ipaddr tmo u))
          = ip2uTransactions u"
    and "ip2uTransactions (AddLogout uname' ipaddr (AddLogin uname ipaddr tmo u))
          = ip2uTransactions u"
    if fresh: "\<not> pending u ipaddr"
  proof -
    let ?u1 = "AddLogin uname ipaddr tmo u"
    have "pending ?u1 ipaddr"
      using fresh by (simp add: AddLogin_pending)
    then obtain e where e: "map_of (ip2uTransactions ?u1) ipaddr = Some e"
      by (auto simp: pending_def)
    show "ip2uTransactions (AddLogin uname' ipaddr tmo' ?u1) = ip2uTransactions u"
      using e fresh
      by (simp add: AddLogin_def[of uname' ipaddr tmo' ?u1] AddLogin_fresh_ip2u toggle_back)
    show "ip2uTransactions (AddLogout uname' ipaddr ?u1) = ip2uTransactions u"
      using e fresh
      by (simp add: AddLogout_def[of uname' ipaddr ?u1] AddLogin_fresh_ip2u toggle_back)
  qed
  then show ?thesis
    by (simp add: AddLogin_map AddLogout_map AddLogin_cumChanges AddLogout_cumChanges
        AddLogin_pending AddLogout_pending Let_def)
qed

text \<open>
  The theorem at a started engine: address 10.0.0.1 has nothing pending, a login for
  alice is added and cancelled by a logout.
\<close>

theorem toggle_cancel_witness:
  "\<not> pending (uid started) ''10.0.0.1''
   \<and> \<not> pending (AddLogout ''alice'' ''10.0.0.1''
          (AddLogin ''alice'' ''10.0.0.1'' ''60'' (uid started))) ''10.0.0.1''
   \<and> cumChanges (AddLogout ''alice'' ''10.0.0.1''
          (AddLogin ''alice'' ''10.0.0.1'' ''60'' (uid started))) = cumChanges (uid started)"
proof -
  have fresh: "\<not> pending (uid started) ''10.0.0.1''"
    by code_simp
  from toggle_cancel [where u = "uid started" and ipaddr = "''10.0.0.1''"
      and uname = "''alice''" and tmo = "''60''" and uname' = "''alice''" and tmo' = "''60''"]
    fresh
  show ?thesis
    by (simp add: Let_def)
qed

text \<open>
  Without the condition the second half fails: when 10.0.0.1 already has a pending
  login (alice), a login for bob removes it and the following logout for bob is
  inserted, so an entry for the address is pending after the two calls.
\<close>

theorem toggle_cancel_counterexample:
  "map_of (ip2uTransactions
      (AddLogout ''bob'' ''10.0.0.1''
         (AddLogin ''bob'' ''10.0.0.1'' ''30''
            (AddLogin ''alice'' ''10.0.0.1'' ''60'' (uid started))))) ''10.0.0.1''
   = Some \<lparr>isLogin = False, username = ''bob'', timeout = ''''\<rparr>"
  by code_simp

subsection \<open>The drain\<close>

lemma fold_addTransaction:
  "fold addTransaction xs p =
     p\<lparr>LoginEntries := LoginEntries p @ map loginOf (filter (\<lambda>kv. isLogin (snd kv)) xs),
       LogoutEntries :=
         LogoutEntries p @ map logoutOf (filter (\<lambda>kv. \<not> isLogin (snd kv)) xs)\<rparr>"
proof (induction xs arbitrary: p)
  case Nil
  show ?case by simp
next
  case (Cons x xs)
  show ?case
    by (cases x) (simp add: Cons.IH, simp add: addTransaction_def loginOf_def logoutOf_def)
qed

lemma fold_addMember:
  "fold addMember ms g = g\<lparr>Members := Members g @ map (\<lambda>m. \<lparr>member_Name = fst m\<rparr>) ms\<rparr>"
proof (induction ms arbitrary: g)
  case Nil
  show ?case by simp
next
  case (Cons m ms)
  show ?case by (cases m) (simp add: Cons.IH, simp add: addMember_def)
qed

lemma fold_addGroup:
  "fold addGroup gs p = p\<lparr>GroupEntries := GroupEntries p @ map groupOf gs\<rparr>"
proof (induction gs arbitrary: p)
  case Nil
  show ?case by simp
next
  case (Cons g gs)
  show ?case
    by (cases g) (simp add: Cons.IH, simp add: addGroup_def fold_addMember groupOf_def)
qed

text \<open>The envelope that a drain builds, field by field.\<close>

lemma buildPayload_eq:
  "buildPayload u =
     \<lparr>Version = Version (payloadE u), Type = Type (payloadE u),
      LoginEntries = map loginOf (filter (\<lambda>kv. isLogin (snd kv)) (ip2uTransactions u)),
      LogoutEntries =
        map logoutOf (filter (\<lambda>kv. \<not> isLogin (snd kv)) (ip2uTransactions u)),
      GroupEntries = map groupOf (groups u)\<rparr>"
  by (simp add: buildPayload_def fold_addTransaction fold_addGroup)

lemma drain_ip2u [simp]: "ip2uTransactions (drain u) = []"
  by (simp add: drain_def gGarbage_def)

lemma drain_cumChanges [simp]: "cumChanges (drain u) = 0"
  by (simp add: drain_def gGarbage_def)

lemma drain_payloadE [simp]: "payloadE (drain u) = buildPayload u"
  by (simp add: drain_def gGarbage_def)

lemma drain_groups: "groups (drain u) = filter (\<lambda>kv. snd kv \<noteq> []) (groups u)"
  by (simp add: drain_def gGarbage_def split_def)

lemma drain_flusher [simp]: "flusher (drain u) = flusher u"
  by (simp add: drain_def gGarbage_def)

lemma drain_flusherQuit [simp]: "flusherQuit (drain u) = flusherQuit u"
  by (simp add: drain_def gGarbage_def)

lemma drain_tickerQuit [simp]: "tickerQuit (drain u) = tickerQuit u"
  by (simp add: drain_def gGarbage_def)

lemma drain_wg [simp]: "wg (drain u) = wg u"
  by (simp add: drain_def gGarbage_def)

lemma drain_isRunning [simp]: "isRunning (drain u) = isRunning u"
  by (simp add: drain_def gGarbage_def)

lemma map_of_filter_distinct:
  "distinct (map fst al) \<Longrightarrow> map_of al k = Some v \<Longrightarrow> P (k, v) \<Longrightarrow>
   map_of (filter P al) k = Some v"
  by (simp add: map_of_eq_Some_iff distinct_map_filter)

lemma map_of_filter_drop:
  "distinct (map fst al) \<Longrightarrow> map_of al k = Some v \<Longrightarrow> \<not> P (k, v) \<Longrightarrow>
   k \<notin> fst ` set (filter P al)"
proof
  assume d: "distinct (map fst al)" and kv: "map_of al k = Some v" and np: "\<not> P (k, v)"
    and "k \<in> fst ` set (filter P al)"
  then obtain v' where "(k, v') \<in> set al" and p: "P (k, v')"
    by auto
  with d have "map_of al k = Some v'"
    by simp
  with kv p np show False
    by simp
qed

text \<open>One flush cycle of the flush task, from its wake-up to the submission.\<close>

lemma flush_cycle:
  "fpc w = F_woken \<Longrightarrow>
   run [Flusher, Flusher] w =
     Some (w\<lparr>uid := drain (uid w), fpc := F_select, sent := sent w @ [buildPayload (uid w)]\<rparr>)"
  by (simp add: flushData_def)

text \<open>
  The drain is one step of the flush task, the one that follows its wake-up; no other
  step of the task touches the ledger.
\<close>

lemma flushData_drain_step:
  "fpc w = F_woken \<Longrightarrow> flushData w = Some (w\<lparr>uid := drain (uid w), fpc := F_submit\<rparr>)"
  by (simp add: flushData_def)

lemma flushData_other_steps:
  "flushData w = Some w' \<Longrightarrow> fpc w \<noteq> F_woken \<Longrightarrow>
   ip2uTransactions (uid w') = ip2uTransactions (uid w) \<and> groups (uid w') = groups (uid w)
   \<and> cumChanges (uid w') = cumChanges (uid w)"
  by (auto simp: flushData_def Wait_park_def split: flush_pc.splits if_splits)

text \<open>
  C7 (flush frame condition). Every flush cycle of the flush task, from the return of
  \<open>Wait\<close> to the submission, empties the pending map and sets the counter to zero; of
  the group map it removes the groups without members and nothing else, so every
  group that has members keeps them. The cycle does this in its drain, and the other
  steps of the task leave pending map, group map and counter as they are.
\<close>

theorem flush_frame:
  "(fpc w = F_woken \<longrightarrow>
      flushData w = Some (w\<lparr>uid := drain (uid w), fpc := F_submit\<rparr>)
      \<and> run [Flusher, Flusher] w =
          Some (w\<lparr>uid := drain (uid w), fpc := F_select,
                 sent := sent w @ [payloadE (drain (uid w))]\<rparr>))
   \<and> (fpc w = F_woken \<longrightarrow>
        (case run [Flusher, Flusher] w of
           None \<Rightarrow> False
         | Some w' \<Rightarrow>
             ip2uTransactions (uid w') = [] \<and> cumChanges (uid w') = 0
             \<and> groups (uid w') = filter (\<lambda>kv. snd kv \<noteq> []) (groups (uid w))
             \<and> (distinct (map fst (groups (uid w))) \<and> map_of (groups (uid w)) g = Some ms
                  \<and> ms \<noteq> [] \<longrightarrow> map_of (groups (uid w')) g = Some ms)))
   \<and> (flushData wo = Some wo' \<and> fpc wo \<noteq> F_woken \<longrightarrow>
        ip2uTransactions (uid wo') = ip2uTransactions (uid wo)
        \<and> groups (uid wo') = groups (uid wo) \<and> cumChanges (uid wo') = cumChanges (uid wo))
   \<and> ip2uTransactions (drain u) = []
   \<and> cumChanges (drain u) = 0
   \<and> groups (drain u) = filter (\<lambda>kv. snd kv \<noteq> []) (groups u)
   \<and> set (groups (drain u)) = {kv \<in> set (groups u). snd kv \<noteq> []}
   \<and> (distinct (map fst (groups u)) \<and> map_of (groups u) g = Some ms \<and> ms \<noteq> []
        \<longrightarrow> map_of (groups (drain u)) g = Some ms)"
proof -
  have frame: "set (groups (drain v)) = {kv \<in> set (groups v). snd kv \<noteq> []}
     \<and> (distinct (map fst (groups v)) \<and> map_of (groups v) g = Some ms \<and> ms \<noteq> []
          \<longrightarrow> map_of (groups (drain v)) g = Some ms)" for v
    by (auto simp: drain_groups intro: map_of_filter_distinct)
  have cyc: "fpc w = F_woken \<Longrightarrow>
      run [Flusher, Flusher] w =
        Some (w\<lparr>uid := drain (uid w), fpc := F_select,
               sent := sent w @ [payloadE (drain (uid w))]\<rparr>)"
    by (simp add: flush_cycle del: run.simps)
  have a: "fpc w = F_woken \<longrightarrow>
      flushData w = Some (w\<lparr>uid := drain (uid w), fpc := F_submit\<rparr>)
      \<and> run [Flusher, Flusher] w =
          Some (w\<lparr>uid := drain (uid w), fpc := F_select,
                 sent := sent w @ [payloadE (drain (uid w))]\<rparr>)"
    using cyc by (simp add: flushData_drain_step del: run.simps)
  have b: "fpc w = F_woken \<longrightarrow>
        (case run [Flusher, Flusher] w of
           None \<Rightarrow> False
         | Some w' \<Rightarrow>
             ip2uTransactions (uid w') = [] \<and> cumChanges (uid w') = 0
             \<and> groups (uid w') = filter (\<lambda>kv. snd kv \<noteq> []) (groups (uid w))
             \<and> (distinct (map fst (groups (uid w))) \<and> map_of (groups (uid w)) g = Some ms
                  \<and> ms \<noteq> [] \<longrightarrow> map_of (groups (uid w')) g = Some ms))"
    using cyc frame [of "uid w"] by (simp add: drain_groups del: run.simps)
  have c: "flushData wo = Some wo' \<and> fpc wo \<noteq> F_woken \<longrightarrow>
        ip2uTransactions (uid wo') = ip2uTransactions (uid wo)
        \<and> groups (uid wo') = groups (uid wo) \<and> cumChanges (uid wo') = cumChanges (uid wo)"
    using flushData_other_steps [of wo wo'] by blast
  from a b c frame [of u] show ?thesis
    by (simp add: drain_groups del: run.simps)
qed

text \<open>
  The theorem on the woken engine, whose ledger has alice's login pending, the counter
  at 2 and alice in grp1; and, for a step that is not the drain, on the busy engine.
\<close>

theorem flush_frame_witness:
  "fpc woken_engine = F_woken
   \<and> distinct (map fst (groups (uid woken_engine)))
   \<and> map_of (groups (uid woken_engine)) ''grp1'' = Some [(''alice'', ())]
   \<and> ip2uTransactions (uid woken_engine) \<noteq> [] \<and> cumChanges (uid woken_engine) = 2
   \<and> flushData bob_while_busy = Some back_at_select \<and> fpc bob_while_busy \<noteq> F_woken
   \<and> (case run [Flusher, Flusher] woken_engine of
         None \<Rightarrow> False
       | Some w' \<Rightarrow>
           ip2uTransactions (uid w') = [] \<and> cumChanges (uid w') = 0
           \<and> groups (uid w') = filter (\<lambda>kv. snd kv \<noteq> []) (groups (uid woken_engine))
           \<and> (distinct (map fst (groups (uid woken_engine)))
                \<and> map_of (groups (uid woken_engine)) ''grp1'' = Some [(''alice'', ())]
                \<and> [(''alice'', ())] \<noteq> []
                \<longrightarrow> map_of (groups (uid w')) ''grp1'' = Some [(''alice'', ())]))
   \<and> ip2uTransactions (uid back_at_select) = ip2uTransactions (uid bob_while_busy)
   \<and> map_of (groups (drain (uid woken_engine))) ''grp1'' = Some [(''alice'', ())]"
proof -
  have h: "fpc woken_engine = F_woken
     \<and> distinct (map fst (groups (uid woken_engine)))
     \<and> map_of (groups (uid woken_engine)) ''grp1'' = Some [(''alice'', ())]
     \<and> ip2uTransactions (uid woken_engine) \<noteq> [] \<and> cumChanges (uid woken_engine) = 2
     \<and> flushData bob_while_busy = Some back_at_select \<and> fpc bob_while_busy \<noteq> F_woken"
    by code_simp
  have ne: "[(''alice'', ())] \<noteq> ([] :: (string \<times> unit) list)"
    by simp
  from flush_frame [where w = woken_engine and g = "''grp1''" and ms = "[(''alice'', ())]"
      and wo = bob_while_busy and wo' = back_at_select and u = "uid woken_engine"] h ne
  show ?thesis
    by blast
qed

subsection \<open>Mutation calls leave \<open>payloadE\<close> alone\<close>

lemma AddLogin_payloadE [simp]: "payloadE (AddLogin uname ipaddr tmo u) = payloadE u"
  by (auto simp: AddLogin_def split: option.splits)

lemma AddLogout_payloadE [simp]: "payloadE (AddLogout uname ipaddr u) = payloadE u"
  by (auto simp: AddLogout_def split: option.splits)

lemma AddGroupMember_payloadE [simp]: "payloadE (AddGroupMember grp mbr u) = payloadE u"
  by (auto simp: AddGroupMember_def split: option.splits)

lemma RemoveGroupMember_payloadE [simp]: "payloadE (RemoveGroupMember grp mbr u) = payloadE u"
  by (auto simp: RemoveGroupMember_def split: option.splits)

lemma mutate_payloadE [simp]: "payloadE (mutate m u) = payloadE u"
  by (cases m) simp_all

lemma fold_mutate_payloadE [simp]: "payloadE (fold mutate ms u) = payloadE u"
  by (induction ms arbitrary: u) simp_all

lemma started_payloadE:
  "payloadE (uid started) =
     \<lparr>Version = ''2.0'', Type = ''update'', LoginEntries = [], LogoutEntries = [],
      GroupEntries = []\<rparr>"
  by (simp add: started_def Init_def engine0_def zeroUID_def UIDVERSION_def UIDTYPE_def)

subsection \<open>Empty groups\<close>

lemma groupOf_empty_in:
  "map_of gs g = Some [] \<Longrightarrow> \<lparr>group_Name = g, Members = []\<rparr> \<in> set (map groupOf gs)"
proof -
  assume "map_of gs g = Some []"
  then have "(g, []) \<in> set gs"
    by (rule map_of_SomeD)
  then have "groupOf (g, []) \<in> set (map groupOf gs)"
    by simp
  then show ?thesis
    by (simp add: groupOf_def)
qed

lemma group_Name_groupOf [simp]: "group_Name (groupOf kv) = fst kv"
  by (simp add: groupOf_def)

lemma AddLogin_groups [simp]: "groups (AddLogin uname ipaddr tmo u) = groups u"
  by (auto simp: AddLogin_def split: option.splits)

lemma AddLogout_groups [simp]: "groups (AddLogout uname ipaddr u) = groups u"
  by (auto simp: AddLogout_def split: option.splits)

lemma map_of_Some_key: "map_of al k = Some v \<Longrightarrow> k \<in> fst ` set al"
  by (metis map_of_eq_None_iff option.distinct(1))

lemma list_all_drop_single: "P p \<Longrightarrow> list_all P (drop n [p])"
  by (cases n) simp_all

lemma names_group_buildPayload:
  "names_group (buildPayload u) g = (g \<in> fst ` set (groups u))"
  by (simp add: names_group_def buildPayload_eq image_image)

text \<open>Only \<open>AddGroupMember\<close> for a group brings it into the group map.\<close>

lemma mutate_keeps_absent:
  "g \<notin> fst ` set (groups u) \<Longrightarrow> \<not> adds_to g (Call m) \<Longrightarrow>
   g \<notin> fst ` set (groups (mutate m u))"
proof (cases m)
  case (Login x y z)
  then show "g \<notin> fst ` set (groups u) \<Longrightarrow> ?thesis"
    by simp
next
  case (Logout x y)
  then show "g \<notin> fst ` set (groups u) \<Longrightarrow> ?thesis"
    by simp
next
  case (GroupAdd grp mbr)
  assume "g \<notin> fst ` set (groups u)" and "\<not> adds_to g (Call m)"
  with GroupAdd show ?thesis
    by (auto simp: adds_to_def AddGroupMember_def AList.dom_update split: option.splits)
next
  case (GroupRemove grp mbr)
  assume "g \<notin> fst ` set (groups u)"
  with GroupRemove show ?thesis
    by (auto simp: RemoveGroupMember_def AList.dom_update split: option.splits
        dest: map_of_Some_key)
qed

lemma step_collected:
  assumes "step a w = Some w'" and "\<not> adds_to g a" and "collected g s0 w"
  shows "collected g s0 w'"
proof (cases a)
  case (Call m)
  from assms(2,3) Call have "g \<notin> fst ` set (groups (mutate m (uid w)))"
    by (simp add: collected_def mutate_keeps_absent)
  with assms(1,3) Call show ?thesis
    by (auto simp: collected_def)
next
  case Flusher
  with assms show ?thesis
    by (auto simp: collected_def flushData_def names_group_buildPayload drain_groups
        Wait_park_def list_all_drop_single split: flush_pc.splits if_splits)
next
  case Tick
  with assms show ?thesis
    by (auto simp: collected_def tickRcvr_tick_def tick_def split: if_splits)
next
  case TickerQuit
  with assms show ?thesis
    by (auto simp: collected_def tickRcvr_quit_def split: if_splits)
next
  case Closer
  with assms show ?thesis
    by (auto simp: collected_def Close_def split: close_pc.splits if_splits)
qed

lemma run_collected:
  "run sched w = Some w' \<Longrightarrow> list_all (\<lambda>a. \<not> adds_to g a) sched \<Longrightarrow>
   collected g s0 w \<Longrightarrow> collected g s0 w'"
proof (induction sched arbitrary: w)
  case Nil
  then show ?case
    by simp
next
  case (Cons a sched)
  from Cons.prems(1) obtain w1 where s: "step a w = Some w1" and r: "run sched w1 = Some w'"
    by (auto split: option.splits)
  from s Cons.prems(2,3) have "collected g s0 w1"
    by (auto intro: step_collected)
  with Cons.IH [OF r] Cons.prems(2) show ?case
    by simp
qed

text \<open>
  After the flush that collects a group, whatever the tasks and the callers do, as
  long as nobody adds to the group again.
\<close>

lemma later_flushes:
  assumes "fpc w = F_woken" and "distinct (map fst (groups (uid w)))"
    and "map_of (groups (uid w)) g = Some []"
    and "list_all (\<lambda>a. \<not> adds_to g a) sched"
    and "run (Flusher # Flusher # sched) w = Some w2"
  shows "take (Suc (length (sent w))) (sent w2) = sent w @ [payloadE (drain (uid w))]
     \<and> g \<notin> fst ` set (groups (uid w2))
     \<and> list_all (\<lambda>e. \<not> names_group e g) (drop (Suc (length (sent w))) (sent w2))
     \<and> (Suc (length (sent w)) < length (sent w2) \<longrightarrow> \<not> names_group (payloadE (uid w2)) g)"
proof -
  let ?w1 = "w\<lparr>uid := drain (uid w), fpc := F_select,
               sent := sent w @ [buildPayload (uid w)]\<rparr>"
  from assms(1) have "run [Flusher, Flusher] w = Some ?w1"
    by (rule flush_cycle)
  with assms(5) have r: "run sched ?w1 = Some w2"
    by (auto split: option.splits)
  have "g \<notin> fst ` set (groups (drain (uid w)))"
    unfolding drain_groups using assms(2,3) by (rule map_of_filter_drop) simp
  then have "collected g (sent w @ [buildPayload (uid w)]) ?w1"
    by (simp add: collected_def)
  with r assms(4) have "collected g (sent w @ [buildPayload (uid w)]) w2"
    by (rule run_collected)
  then show ?thesis
    by (simp add: collected_def)
qed

text \<open>
  C3 (group garbage collection), as the code has it. The flush builds the group
  entries before it collects the empty groups. So for a group whose member set is empty
  at the start of a flush cycle, the envelope emitted by that flush still lists the
  group, as an entry without members; the group is then deleted from the group map.
  From then on, whatever is called and however the tasks run, as long as
  \<open>AddGroupMember\<close> is not called for the group again: the group map does not have it,
  no envelope of a later flush names it, and once a later flush has been sent neither
  does \<open>payloadE\<close>, which \<open>Marshall\<close> serializes.
\<close>

theorem empty_group_collected:
  "(fpc w = F_woken \<longrightarrow>
      run [Flusher, Flusher] w =
        Some (w\<lparr>uid := drain (uid w), fpc := F_select,
               sent := sent w @ [payloadE (drain (uid w))]\<rparr>))
   \<and> (distinct (map fst (groups u)) \<and> map_of (groups u) g = Some [] \<longrightarrow>
        \<lparr>group_Name = g, Members = []\<rparr> \<in> set (GroupEntries (payloadE (drain u)))
        \<and> g \<notin> fst ` set (groups (drain u))
        \<and> g \<notin> group_Name ` set (GroupEntries (payloadE (drain (drain u)))))
   \<and> (fpc w = F_woken \<and> distinct (map fst (groups (uid w)))
        \<and> map_of (groups (uid w)) g = Some []
        \<and> list_all (\<lambda>a. \<not> adds_to g a) sched
        \<and> run (Flusher # Flusher # sched) w = Some w2 \<longrightarrow>
        take (Suc (length (sent w))) (sent w2) = sent w @ [payloadE (drain (uid w))]
        \<and> \<lparr>group_Name = g, Members = []\<rparr> \<in> set (GroupEntries (payloadE (drain (uid w))))
        \<and> g \<notin> fst ` set (groups (uid w2))
        \<and> list_all (\<lambda>e. \<not> names_group e g) (drop (Suc (length (sent w))) (sent w2))
        \<and> (Suc (length (sent w)) < length (sent w2)
             \<longrightarrow> \<not> names_group (payloadE (uid w2)) g))"
proof -
  have cycle: "fpc w = F_woken \<longrightarrow>
      run [Flusher, Flusher] w =
        Some (w\<lparr>uid := drain (uid w), fpc := F_select,
               sent := sent w @ [payloadE (drain (uid w))]\<rparr>)"
    by (simp add: flush_cycle del: run.simps)
  have one: "\<lparr>group_Name = g, Members = []\<rparr> \<in> set (GroupEntries (payloadE (drain v)))
        \<and> g \<notin> fst ` set (groups (drain v))
        \<and> g \<notin> group_Name ` set (GroupEntries (payloadE (drain (drain v))))"
    if d: "distinct (map fst (groups v))" and e: "map_of (groups v) g = Some []" for v
  proof -
    have listed: "\<lparr>group_Name = g, Members = []\<rparr> \<in> set (GroupEntries (payloadE (drain v)))"
      using e by (simp add: buildPayload_eq groupOf_empty_in del: set_map)
    have gone: "g \<notin> fst ` set (groups (drain v))"
      unfolding drain_groups using d e by (rule map_of_filter_drop) simp
    have "group_Name ` set (GroupEntries (payloadE (drain (drain v))))
            = fst ` set (groups (drain v))"
      by (simp add: buildPayload_eq image_image)
    with listed gone show ?thesis
      by simp
  qed
  have later: "fpc w = F_woken \<and> distinct (map fst (groups (uid w)))
        \<and> map_of (groups (uid w)) g = Some []
        \<and> list_all (\<lambda>a. \<not> adds_to g a) sched
        \<and> run (Flusher # Flusher # sched) w = Some w2 \<longrightarrow>
        take (Suc (length (sent w))) (sent w2) = sent w @ [payloadE (drain (uid w))]
        \<and> \<lparr>group_Name = g, Members = []\<rparr> \<in> set (GroupEntries (payloadE (drain (uid w))))
        \<and> g \<notin> fst ` set (groups (uid w2))
        \<and> list_all (\<lambda>e. \<not> names_group e g) (drop (Suc (length (sent w))) (sent w2))
        \<and> (Suc (length (sent w)) < length (sent w2)
             \<longrightarrow> \<not> names_group (payloadE (uid w2)) g)"
    using later_flushes [of w g sched w2] one [of "uid w"] by blast
  from cycle one [of u] later show ?thesis
    by blast
qed

text \<open>
  The theorem on the engine whose group grp1 has just lost its last member, and on
  the run that follows, in which a second envelope is sent.
\<close>

theorem empty_group_collected_witness:
  "fpc grp1_emptied = F_woken
   \<and> distinct (map fst (groups (uid grp1_emptied)))
   \<and> map_of (groups (uid grp1_emptied)) ''grp1'' = Some []
   \<and> list_all (\<lambda>a. \<not> adds_to ''grp1'' a) after_collection
   \<and> run (Flusher # Flusher # after_collection) grp1_emptied = Some grp1_flushed_twice
   \<and> Suc (length (sent grp1_emptied)) < length (sent grp1_flushed_twice)
   \<and> run [Flusher, Flusher] grp1_emptied =
        Some (grp1_emptied\<lparr>uid := drain (uid grp1_emptied), fpc := F_select,
               sent := sent grp1_emptied @ [payloadE (drain (uid grp1_emptied))]\<rparr>)
   \<and> \<lparr>group_Name = ''grp1'', Members = []\<rparr>
        \<in> set (GroupEntries (payloadE (drain (uid grp1_emptied))))
   \<and> ''grp1'' \<notin> fst ` set (groups (drain (uid grp1_emptied)))
   \<and> take (Suc (length (sent grp1_emptied))) (sent grp1_flushed_twice)
        = sent grp1_emptied @ [payloadE (drain (uid grp1_emptied))]
   \<and> list_all (\<lambda>e. \<not> names_group e ''grp1'')
        (drop (Suc (length (sent grp1_emptied))) (sent grp1_flushed_twice))
   \<and> \<not> names_group (payloadE (uid grp1_flushed_twice)) ''grp1''"
proof -
  have h: "fpc grp1_emptied = F_woken
     \<and> distinct (map fst (groups (uid grp1_emptied)))
     \<and> map_of (groups (uid grp1_emptied)) ''grp1'' = Some []
     \<and> list_all (\<lambda>a. \<not> adds_to ''grp1'' a) after_collection
     \<and> run (Flusher # Flusher # after_collection) grp1_emptied = Some grp1_flushed_twice
     \<and> Suc (length (sent grp1_emptied)) < length (sent grp1_flushed_twice)"
    by code_simp
  from empty_group_collected [where w = grp1_emptied and u = "uid grp1_emptied"
      and g = "''grp1''" and sched = after_collection and ?w2.0 = grp1_flushed_twice] h
  show ?thesis
    by blast
qed

text \<open>
  The envelope of that flush does not omit grp1: it is the one group entry of the
  envelope that is sent, and of the struct that \<open>Marshall\<close> serializes afterwards,
  although the group map no longer has it.
\<close>

theorem empty_group_collected_counterexample:
  "map_of (groups (uid grp1_emptied)) ''grp1'' = Some []
   \<and> map_option
       (\<lambda>w. (GroupEntries (last (sent w)), groups (uid w), GroupEntries (Marshall id (uid w))))
       (run [Flusher, Flusher] grp1_emptied)
     = Some ([\<lparr>group_Name = ''grp1'', Members = []\<rparr>], [],
             [\<lparr>group_Name = ''grp1'', Members = []\<rparr>])"
  by code_simp

subsection \<open>What \<open>Marshall\<close> serializes\<close>

text \<open>
  C4 (diagnostic serialization), as the code has it. \<open>Marshall\<close> serializes \<open>payloadE\<close>,
  which only a flush writes. So it returns the serialization of the envelope of the
  most recent flush: no mutation call changes its result; before the first flush it
  is the envelope without entries; after a flush it is the envelope of the logins,
  logouts and groups that this flush found in the ledger, whatever has been called
  since.
\<close>

theorem marshall_last_flush:
  "Marshall enc (mutate m u) = Marshall enc u
   \<and> Marshall enc (fold mutate ms (uid started)) =
       enc \<lparr>Version = ''2.0'', Type = ''update'', LoginEntries = [], LogoutEntries = [],
            GroupEntries = []\<rparr>
   \<and> Marshall enc (fold mutate ms (drain u)) =
       enc \<lparr>Version = Version (payloadE u), Type = Type (payloadE u),
            LoginEntries = map loginOf (filter (\<lambda>kv. isLogin (snd kv)) (ip2uTransactions u)),
            LogoutEntries =
              map logoutOf (filter (\<lambda>kv. \<not> isLogin (snd kv)) (ip2uTransactions u)),
            GroupEntries = map groupOf (groups u)\<rparr>"
  by (simp add: Marshall_def started_payloadE buildPayload_eq)

text \<open>
  The pending state is not what \<open>Marshall\<close> serializes. With alice's login pending and
  not yet flushed, the struct handed to the encoder has no login entry; and after the
  flush, when nothing is pending any more, it has alice's.
\<close>

theorem marshall_last_flush_counterexample:
  "pending (AddLogin ''alice'' ''10.0.0.1'' ''60'' (uid started)) ''10.0.0.1''
   \<and> Marshall id (AddLogin ''alice'' ''10.0.0.1'' ''60'' (uid started)) =
       \<lparr>Version = ''2.0'', Type = ''update'', LoginEntries = [], LogoutEntries = [],
        GroupEntries = []\<rparr>
   \<and> ip2uTransactions (drain (AddLogin ''alice'' ''10.0.0.1'' ''60'' (uid started))) = []
   \<and> Marshall id (drain (AddLogin ''alice'' ''10.0.0.1'' ''60'' (uid started))) =
       \<lparr>Version = ''2.0'', Type = ''update'',
        LoginEntries =
          [\<lparr>login_Name = ''alice'', login_Ip = ''10.0.0.1'', login_Timeout = ''60''\<rparr>],
        LogoutEntries = [], GroupEntries = []\<rparr>"
  by code_simp

text \<open>
  The end-to-end scenario: two logins and a group member, then a flush. The envelope
  has the two logins, no logout and the group with its member.
\<close>

lemma end_to_end_envelope:
  "payloadE
     (drain (AddGroupMember ''grp1'' ''alice''
        (AddLogin ''bob'' ''10.0.0.2'' ''''
           (AddLogin ''alice'' ''10.0.0.1'' ''60'' (uid started))))) =
   \<lparr>Version = ''2.0'', Type = ''update'',
    LoginEntries =
      [\<lparr>login_Name = ''alice'', login_Ip = ''10.0.0.1'', login_Timeout = ''60''\<rparr>,
       \<lparr>login_Name = ''bob'', login_Ip = ''10.0.0.2'', login_Timeout = ''''\<rparr>],
    LogoutEntries = [],
    GroupEntries = [\<lparr>group_Name = ''grp1'', Members = [\<lparr>member_Name = ''alice''\<rparr>]\<rparr>]\<rparr>"
  by code_simp

subsection \<open>Group membership\<close>

lemma AddGroupMember_member_noop:
  "is_member u grp mbr \<Longrightarrow> AddGroupMember grp mbr u = u"
  by (auto simp: is_member_def AddGroupMember_def split: option.splits)

lemma AddGroupMember_groups:
  "\<not> is_member u grp mbr \<Longrightarrow>
   groups (AddGroupMember grp mbr u) =
     AList.update grp
       (AList.update mbr () (case map_of (groups u) grp of None \<Rightarrow> [] | Some ms \<Rightarrow> ms))
       (groups u)"
  by (auto simp: is_member_def AddGroupMember_def split: option.splits)

lemma AddGroupMember_is_member: "is_member (AddGroupMember grp mbr u) grp mbr"
proof (cases "is_member u grp mbr")
  case True
  then show ?thesis
    by (simp add: AddGroupMember_member_noop)
next
  case False
  then show ?thesis
    by (simp add: AddGroupMember_groups is_member_def AList.update_conv')
qed

lemma AddGroupMember_cumChanges:
  "cumChanges (AddGroupMember grp mbr u) =
     cumChanges u + (if is_member u grp mbr then 0 else 1)"
  by (auto simp: is_member_def AddGroupMember_def split: option.splits)

lemma RemoveGroupMember_cumChanges:
  "cumChanges (RemoveGroupMember grp mbr u) =
     cumChanges u + (if is_member u grp mbr then 1 else 0)"
  by (auto simp: is_member_def RemoveGroupMember_def split: option.splits)

lemma AddGroupMember_ip2u [simp]:
  "ip2uTransactions (AddGroupMember grp mbr u) = ip2uTransactions u"
  by (auto simp: AddGroupMember_def split: option.splits)

lemma RemoveGroupMember_ip2u [simp]:
  "ip2uTransactions (RemoveGroupMember grp mbr u) = ip2uTransactions u"
  by (auto simp: RemoveGroupMember_def split: option.splits)

subsection \<open>The lists stay free of duplicate keys\<close>

lemma list_all_update:
  "list_all P al \<Longrightarrow> P (k, v) \<Longrightarrow> list_all P (AList.update k v al)"
  by (induction al) auto

lemma list_all_map_of:
  "list_all P al \<Longrightarrow> map_of al k = Some v \<Longrightarrow> P (k, v)"
  by (auto simp: list_all_iff dest: map_of_SomeD)

lemma wf_ledger_started: "wf_ledger (uid started)"
  by (simp add: wf_ledger_def started_def Init_def engine0_def zeroUID_def)

lemma wf_ledger_AddLogin: "wf_ledger u \<Longrightarrow> wf_ledger (AddLogin uname ipaddr tmo u)"
  by (auto simp: AddLogin_def wf_ledger_def AList.distinct_update AList.distinct_delete
      split: option.splits)

lemma wf_ledger_AddLogout: "wf_ledger u \<Longrightarrow> wf_ledger (AddLogout uname ipaddr u)"
  by (auto simp: AddLogout_def wf_ledger_def AList.distinct_update AList.distinct_delete
      split: option.splits)

lemma wf_ledger_AddGroupMember: "wf_ledger u \<Longrightarrow> wf_ledger (AddGroupMember grp mbr u)"
  by (auto simp: AddGroupMember_def wf_ledger_def AList.distinct_update
      intro!: list_all_update dest: list_all_map_of split: option.splits)

lemma wf_ledger_RemoveGroupMember:
  "wf_ledger u \<Longrightarrow> wf_ledger (RemoveGroupMember grp mbr u)"
  by (auto simp: RemoveGroupMember_def wf_ledger_def AList.distinct_update
      AList.distinct_delete intro!: list_all_update dest: list_all_map_of
      split: option.splits)

lemma wf_ledger_mutate: "wf_ledger u \<Longrightarrow> wf_ledger (mutate m u)"
  by (cases m)
    (simp_all add: wf_ledger_AddLogin wf_ledger_AddLogout wf_ledger_AddGroupMember
      wf_ledger_RemoveGroupMember)

lemma wf_ledger_drain: "wf_ledger u \<Longrightarrow> wf_ledger (drain u)"
  by (auto simp: wf_ledger_def drain_groups distinct_map_filter list_all_iff)

lemma wf_ledger_run_ops: "wf_ledger u \<Longrightarrow> wf_ledger (run_ops ops u)"
proof (induction ops arbitrary: u)
  case Nil
  then show ?case
    by (simp add: run_ops_def)
next
  case (Cons a ops)
  then show ?case
    by (cases a) (simp_all add: run_ops_def wf_ledger_mutate wf_ledger_drain)
qed

lemma count_distinct_member:
  "distinct (map fst al) \<Longrightarrow> map_of al k = Some v \<Longrightarrow> count_list (map fst al) k = 1"
proof (induction al)
  case Nil
  then show ?case by simp
next
  case (Cons p al)
  then show ?case
    by (cases p)
      (auto split: if_splits simp: count_list_0_iff rev_image_eqI dest: map_of_SomeD)
qed

lemma is_member_count:
  assumes "wf_ledger u" and "is_member u grp mbr"
  shows "\<exists>ms. map_of (groups u) grp = Some ms \<and> count_list (map fst ms) mbr = 1"
proof -
  from assms(2) obtain ms
    where ms: "map_of (groups u) grp = Some ms" and m: "map_of ms mbr \<noteq> None"
    by (auto simp: is_member_def split: option.splits)
  from assms(1) ms have "distinct (map fst ms)"
    by (auto simp: wf_ledger_def dest: list_all_map_of)
  moreover from m obtain v where "map_of ms mbr = Some v"
    by auto
  ultimately have "count_list (map fst ms) mbr = 1"
    by (rule count_distinct_member)
  with ms show ?thesis
    by blast
qed

text \<open>
  C9 (group-membership idempotence), as the code has it. If the group already contains
  the member, \<open>AddGroupMember\<close> changes nothing at all. Hence the second of two
  consecutive calls changes nothing; after them the member is in the group, exactly
  once; and the counter has gone up by one when the member was not in the group before
  the first call, and not at all when it was.
\<close>

theorem group_idempotent:
  "(is_member u grp mbr \<longrightarrow> AddGroupMember grp mbr u = u)
   \<and> AddGroupMember grp mbr (AddGroupMember grp mbr u) = AddGroupMember grp mbr u
   \<and> is_member (AddGroupMember grp mbr (AddGroupMember grp mbr u)) grp mbr
   \<and> (wf_ledger u \<longrightarrow>
        (\<exists>ms. map_of (groups (AddGroupMember grp mbr (AddGroupMember grp mbr u))) grp = Some ms
              \<and> count_list (map fst ms) mbr = 1))
   \<and> cumChanges (AddGroupMember grp mbr (AddGroupMember grp mbr u)) =
       cumChanges u + (if is_member u grp mbr then 0 else 1)"
proof -
  have twice: "AddGroupMember grp mbr (AddGroupMember grp mbr u) = AddGroupMember grp mbr u"
    by (simp add: AddGroupMember_member_noop AddGroupMember_is_member)
  have "wf_ledger u \<Longrightarrow>
        \<exists>ms. map_of (groups (AddGroupMember grp mbr u)) grp = Some ms
              \<and> count_list (map fst ms) mbr = 1"
    by (intro is_member_count wf_ledger_AddGroupMember AddGroupMember_is_member)
  then show ?thesis
    by (simp add: twice AddGroupMember_member_noop AddGroupMember_is_member
        AddGroupMember_cumChanges)
qed

text \<open>The theorem on the ledger in which alice is in grp1, for another call with alice.\<close>

theorem group_idempotent_witness:
  "is_member alice_in_grp1 ''grp1'' ''alice'' \<and> wf_ledger alice_in_grp1
   \<and> AddGroupMember ''grp1'' ''alice'' alice_in_grp1 = alice_in_grp1
   \<and> (\<exists>ms. map_of (groups (AddGroupMember ''grp1'' ''alice''
                (AddGroupMember ''grp1'' ''alice'' alice_in_grp1))) ''grp1'' = Some ms
            \<and> count_list (map fst ms) ''alice'' = 1)"
proof -
  have h: "is_member alice_in_grp1 ''grp1'' ''alice'' \<and> wf_ledger alice_in_grp1"
    by code_simp
  from group_idempotent [where u = alice_in_grp1 and grp = "''grp1''" and mbr = "''alice''"] h
  show ?thesis
    by blast
qed

text \<open>
  Two consecutive calls do not raise the counter from every state: from the ledger in
  which alice is already in grp1 it stays at 1.
\<close>

theorem group_idempotent_counterexample:
  "is_member alice_in_grp1 ''grp1'' ''alice''
   \<and> cumChanges alice_in_grp1 = 1
   \<and> cumChanges (AddGroupMember ''grp1'' ''alice''
        (AddGroupMember ''grp1'' ''alice'' alice_in_grp1)) = 1"
  by code_simp

subsection \<open>The trigger\<close>

lemma incChange_parked:
  "parked (flusher (incChange k u)) = (parked (flusher u) \<and> cumChanges u + k \<noteq> MAXCHANGES)"
  by (simp add: incChange_def Let_def)

lemma AddLogin_nsignal:
  "nsignal (flusher (AddLogin uname ipaddr tmo u)) =
     nsignal (flusher u) +
       (if cumChanges (AddLogin uname ipaddr tmo u) = MAXCHANGES then 1 else 0)"
  by (auto simp: AddLogin_def incChange_nsignal split: option.splits)

lemma AddLogout_nsignal:
  "nsignal (flusher (AddLogout uname ipaddr u)) =
     nsignal (flusher u) +
       (if cumChanges (AddLogout uname ipaddr u) = MAXCHANGES then 1 else 0)"
  by (auto simp: AddLogout_def incChange_nsignal split: option.splits)

lemma AddGroupMember_nsignal:
  "nsignal (flusher (AddGroupMember grp mbr u)) =
     nsignal (flusher u) +
       (if cumChanges (AddGroupMember grp mbr u) = MAXCHANGES
           \<and> cumChanges (AddGroupMember grp mbr u) \<noteq> cumChanges u then 1 else 0)"
  by (auto simp: AddGroupMember_def incChange_nsignal split: option.splits)

lemma RemoveGroupMember_nsignal:
  "nsignal (flusher (RemoveGroupMember grp mbr u)) =
     nsignal (flusher u) +
       (if cumChanges (RemoveGroupMember grp mbr u) = MAXCHANGES
           \<and> cumChanges (RemoveGroupMember grp mbr u) \<noteq> cumChanges u then 1 else 0)"
  by (auto simp: RemoveGroupMember_def incChange_nsignal split: option.splits)

lemma mutate_nsignal:
  "nsignal (flusher (mutate m u)) =
     nsignal (flusher u) +
       (if cumChanges (mutate m u) = MAXCHANGES \<and> cumChanges (mutate m u) \<noteq> cumChanges u
        then 1 else 0)"
proof (cases m)
  case (Login n i t)
  then show ?thesis
    by (simp add: AddLogin_nsignal AddLogin_cumChanges)
next
  case (Logout n i)
  then show ?thesis
    by (simp add: AddLogout_nsignal AddLogout_cumChanges)
next
  case (GroupAdd g b)
  then show ?thesis
    by (simp add: AddGroupMember_nsignal)
next
  case (GroupRemove g b)
  then show ?thesis
    by (simp add: RemoveGroupMember_nsignal)
qed

text \<open>Every call moves the counter by at most one.\<close>

lemma mutate_single_step: "\<bar>cumChanges (mutate m u) - cumChanges u\<bar> \<le> 1"
  by (cases m)
    (simp_all add: AddLogin_cumChanges AddLogout_cumChanges AddGroupMember_cumChanges
      RemoveGroupMember_cumChanges)

lemma fold_mutate_nsignal:
  "nsignal (flusher (fold mutate ms u)) =
     nsignal (flusher u) + arrivals (cumChanges u) (counter_trace ms u)"
proof (induction ms arbitrary: u)
  case Nil
  show ?case by simp
next
  case (Cons m ms)
  show ?case
    by (simp add: Cons.IH mutate_nsignal)
qed

lemma tick_zero: "cumChanges u = 0 \<Longrightarrow> tick u = u"
  by (simp add: tick_def)

text \<open>
  C6 (threshold trigger), as the code has it. Over every sequence of calls, each of
  which moves the counter by at most one, the wake signal is raised exactly when a
  step makes the counter equal to the threshold 100, be it an increment (99 to 100)
  or a decrement (101 to 100). A timer tick that finds the counter at 0 raises no
  signal and changes nothing, so nothing is submitted because of it.
\<close>

theorem threshold_trigger:
  "nsignal (flusher (fold mutate ms u)) =
     nsignal (flusher u) + arrivals (cumChanges u) (counter_trace ms u)
   \<and> \<bar>cumChanges (mutate m u) - cumChanges u\<bar> \<le> 1
   \<and> (cumChanges u99 = 99 \<longrightarrow>
        nsignal (flusher (incChange 1 u99)) = nsignal (flusher u99) + 1)
   \<and> (cumChanges u101 = 101 \<longrightarrow>
        nsignal (flusher (incChange (- 1) u101)) = nsignal (flusher u101) + 1)
   \<and> (cumChanges u0 = 0 \<longrightarrow> tick u0 = u0)
   \<and> (tpc w = T_select \<and> cumChanges (uid w) = 0 \<longrightarrow> step Tick w = Some w)"
  by (simp add: fold_mutate_nsignal mutate_single_step incChange_nsignal MAXCHANGES_def
      tick_zero tickRcvr_tick_def)

text \<open>The theorem on ledgers with the counter at 99, 101 and 0.\<close>

theorem threshold_trigger_witness:
  "cumChanges below_threshold = 99 \<and> cumChanges over_threshold = 101
   \<and> cumChanges (uid started) = 0 \<and> tpc started = T_select
   \<and> nsignal (flusher (incChange 1 below_threshold)) = nsignal (flusher below_threshold) + 1
   \<and> nsignal (flusher (incChange (- 1) over_threshold)) = nsignal (flusher over_threshold) + 1
   \<and> tick (uid started) = uid started
   \<and> step Tick started = Some started"
proof -
  have h: "cumChanges below_threshold = 99 \<and> cumChanges over_threshold = 101
     \<and> cumChanges (uid started) = 0 \<and> tpc started = T_select"
    by code_simp
  from threshold_trigger [where ?u99.0 = below_threshold and ?u101.0 = over_threshold
      and ?u0.0 = "uid started" and w = started] h
  show ?thesis
    by blast
qed

text \<open>
  It is not only an increment that raises the signal. After 101 changes, the first
  signal having been raised at 100, alice's pending login is cancelled by a logout:
  the counter comes down from 101 to 100 and the signal is raised a second time.
\<close>

theorem threshold_trigger_counterexample:
  "cumChanges over_threshold = 101 \<and> nsignal (flusher over_threshold) = 1
   \<and> cumChanges (AddLogout ''alice'' ''10.0.0.1'' over_threshold) = 100
   \<and> nsignal (flusher (AddLogout ''alice'' ''10.0.0.1'' over_threshold)) = 2"
  by code_simp

text \<open>
  C10 (the trigger fires on arrival at the threshold from either direction).
  \<open>incChange\<close> raises the wake signal, and so wakes a parked flush task, if and only
  if the counter after the step is exactly 100, whatever the sign of the step. In
  particular \<open>AddLogin\<close> and \<open>AddLogout\<close> on an address with a pending mutation,
  called with the counter at 101, bring it down to 100 and raise the signal.
\<close>

theorem trigger_on_arrival:
  "nsignal (flusher (incChange k u)) =
     nsignal (flusher u) + (if cumChanges u + k = 100 then 1 else 0)
   \<and> parked (flusher (incChange k u)) = (parked (flusher u) \<and> cumChanges u + k \<noteq> 100)
   \<and> (pending u ipaddr \<and> cumChanges u = 101 \<longrightarrow>
        cumChanges (AddLogin uname ipaddr tmo u) = 100
        \<and> nsignal (flusher (AddLogin uname ipaddr tmo u)) = nsignal (flusher u) + 1
        \<and> cumChanges (AddLogout uname ipaddr u) = 100
        \<and> nsignal (flusher (AddLogout uname ipaddr u)) = nsignal (flusher u) + 1)"
  by (simp add: incChange_nsignal incChange_parked AddLogin_nsignal AddLogout_nsignal
      AddLogin_cumChanges AddLogout_cumChanges MAXCHANGES_def)

text \<open>The theorem on the ledger with 101 changes, alice's login among them.\<close>

theorem trigger_on_arrival_witness:
  "pending over_threshold ''10.0.0.1'' \<and> cumChanges over_threshold = 101
   \<and> cumChanges (AddLogin ''alice'' ''10.0.0.1'' ''60'' over_threshold) = 100
   \<and> nsignal (flusher (AddLogin ''alice'' ''10.0.0.1'' ''60'' over_threshold))
       = nsignal (flusher over_threshold) + 1
   \<and> cumChanges (AddLogout ''alice'' ''10.0.0.1'' over_threshold) = 100
   \<and> nsignal (flusher (AddLogout ''alice'' ''10.0.0.1'' over_threshold))
       = nsignal (flusher over_threshold) + 1"
proof -
  have h: "pending over_threshold ''10.0.0.1'' \<and> cumChanges over_threshold = 101"
    by code_simp
  from trigger_on_arrival [where u = over_threshold and ipaddr = "''10.0.0.1''"
      and uname = "''alice''" and tmo = "''60''"] h
  show ?thesis
    by blast
qed

subsection \<open>The counter and the ledger\<close>











lemma restart_ip2u [simp]: "ip2uTransactions (restart err u) = []"
  by (simp add: restart_def Init_def Let_def split: option.splits)

lemma restart_groups [simp]: "groups (restart err u) = []"
  by (simp add: restart_def Init_def Let_def split: option.splits)

lemma restart_cumChanges [simp]: "cumChanges (restart err u) = cumChanges u"
  by (simp add: restart_def Init_def Let_def split: option.splits)










text \<open>
  The counter never exceeds the number of calls made, which is why the wrap-around of
  Go's \<open>int\<close> is out of reach.
\<close>

lemma cumChanges_step_le:
  "max 0 (cumChanges (apply_op a u)) \<le> max 0 (cumChanges u) + 1"
proof (cases a)
  case (Mutation m)
  with mutate_single_step [of m u] show ?thesis
    by auto
next
  case Drain
  then show ?thesis
    by simp
qed

lemma cumChanges_run_le:
  "cumChanges (run_ops ops u) \<le> max 0 (cumChanges u) + int (length ops)"
proof (induction ops arbitrary: u)
  case Nil
  show ?case
    by (simp add: run_ops_def)
next
  case (Cons a ops)
  have "cumChanges (run_ops ops (apply_op a u))
          \<le> max 0 (cumChanges (apply_op a u)) + int (length ops)"
    by (rule Cons.IH)
  also have "\<dots> \<le> max 0 (cumChanges u) + 1 + int (length ops)"
    using cumChanges_step_le [of a u] by simp
  finally show ?case
    by (simp add: run_ops_def)
qed

lemma cumChanges_le_length: "cumChanges (run_ops ops (uid started)) \<le> int (length ops)"
  using cumChanges_run_le [of ops "uid started"]
  by (simp add: started_def Init_def engine0_def zeroUID_def)

lemma cumChanges_life_step:
  "max 0 (cumChanges (apply_life a u)) \<le> max 0 (cumChanges u) + 1"
proof (cases a)
  case (Start err)
  then show ?thesis
    by simp
next
  case (Ledger b)
  with cumChanges_step_le [of b u] show ?thesis
    by simp
qed

lemma cumChanges_run_life_le:
  "cumChanges (run_life lops u) \<le> max 0 (cumChanges u) + int (length lops)"
proof (induction lops arbitrary: u)
  case Nil
  show ?case
    by (simp add: run_life_def)
next
  case (Cons a lops)
  have "cumChanges (run_life lops (apply_life a u))
          \<le> max 0 (cumChanges (apply_life a u)) + int (length lops)"
    by (rule Cons.IH)
  also have "\<dots> \<le> max 0 (cumChanges u) + 1 + int (length lops)"
    using cumChanges_life_step [of a u] by simp
  finally show ?case
    by (simp add: run_life_def)
qed

lemma cumChanges_life_le: "cumChanges (run_life lops (uid started)) \<le> int (length lops)"
  using cumChanges_run_life_le [of lops "uid started"]
  by (simp add: started_def Init_def engine0_def zeroUID_def)

subsection \<open>Shutdown\<close>

















text \<open>
  The signal of \<open>Close\<close> can be lost as well. The flush task has left its \<open>select\<close>
  by the \<open>default\<close> branch but has not yet entered \<open>Wait\<close> when \<open>Close\<close> closes the
  quit channel and signals. The task then parks; the timer task returns; and neither
  the flush task nor \<open>Close\<close>, which waits for it, can move again.
\<close>

lemma Close_can_block:
  "map_option (\<lambda>w. (fpc w, flushData w, tickRcvr_tick w, tickRcvr_quit w, Close w, wg (uid w)))
     (run [Flusher, Closer, Closer, Closer, Flusher, TickerQuit] started)
   = Some (F_wait, None, None, None, None, 1)"
  by code_simp

subsection \<open>The wake signal\<close>








end
